theory Spec2Isabelle
  imports Main
begin

section \<open>Characters, strings and Python errors\<close>

text \<open>
  A Python \<open>str\<close> is modelled as a HOL \<open>string\<close>. The character predicates
  below are those of Python on ASCII text: \<open>isspace\<close> is \<open>str.isspace\<close> (also the
  class \<open>\s\<close> of \<open>re\<close> on \<open>str\<close> patterns and the separators of \<open>str.strip\<close> and
  \<open>str.split\<close>), \<open>isupper\<close> is \<open>str.isupper\<close> on a one-character string and
  \<open>upper_char\<close> is \<open>str.upper\<close> on one character. Characters outside ASCII are
  treated as uncased and non-blank.
\<close>

datatype py_error = IndexError

definition isspace :: "char \<Rightarrow> bool" where
  "isspace c = (c \<in> set [CHR 0x09, CHR 0x0A, CHR 0x0B, CHR 0x0C, CHR 0x0D,
                          CHR 0x1C, CHR 0x1D, CHR 0x1E, CHR 0x1F, CHR 0x20])"

definition isupper :: "char \<Rightarrow> bool" where
  "isupper c = (c \<in> set ''ABCDEFGHIJKLMNOPQRSTUVWXYZ'')"

definition upper_char :: "char \<Rightarrow> char" where
  "upper_char c =
     (case map_of (zip ''abcdefghijklmnopqrstuvwxyz'' ''ABCDEFGHIJKLMNOPQRSTUVWXYZ'') c of
        None \<Rightarrow> c
      | Some u \<Rightarrow> u)"

text \<open>\<open>w.endswith(e)\<close>.\<close>

definition endswith :: "string \<Rightarrow> string \<Rightarrow> bool" where
  "endswith w e = (length e \<le> length w \<and> drop (length w - length e) w = e)"

text \<open>
  \<open>self.sentence_enders = {'.', '!', '?'}\<close> is set by \<open>__init__\<close> and never
  assigned again, so it is a constant of the model.
\<close>

definition sentence_enders :: "string list" where
  "sentence_enders = [''.'', ''!'', ''?'']"

text \<open>\<open>any(w.endswith(end) for end in self.sentence_enders)\<close>.\<close>

definition ends_sentence :: "string \<Rightarrow> bool" where
  "ends_sentence w = list_ex (endswith w) sentence_enders"

text \<open>\<open>w[0].isupper()\<close>: indexing the empty string raises \<open>IndexError\<close>.\<close>

definition first_isupper :: "string \<Rightarrow> py_error + bool" where
  "first_isupper w = (case w of [] \<Rightarrow> Inl IndexError | c # _ \<Rightarrow> Inr (isupper c))"

text \<open>\<open>random.choice(xs)\<close>, the random draw being the number \<open>r\<close>.\<close>

definition random_choice :: "nat \<Rightarrow> 'a list \<Rightarrow> py_error + 'a" where
  "random_choice r xs = (if xs = [] then Inl IndexError else Inr (xs ! (r mod length xs)))"

section \<open>The generator's state\<close>

text \<open>
  \<open>self.bigrams\<close> is a \<open>defaultdict(list)\<close>; its insertion order is observable
  (\<open>keys()\<close>, \<open>items()\<close>), so it is an association list in insertion order.
\<close>

record generator =
  bigrams :: "(string \<times> string list) list"
  sentence_starters :: "string list"

text \<open>\<open>__init__\<close>.\<close>

definition generator_init :: generator where
  "generator_init = \<lparr>bigrams = [], sentence_starters = []\<rparr>"

text \<open>
  \<open>d[k].append(v)\<close> on a \<open>defaultdict(list)\<close>: a missing key is inserted last with
  the list \<open>[v]\<close>, a present key keeps its place.
\<close>

fun dict_append :: "string \<Rightarrow> string \<Rightarrow> (string \<times> string list) list \<Rightarrow> (string \<times> string list) list" where
  "dict_append k v [] = [(k, [v])]"
| "dict_append k v ((k', vs) # rest) =
     (if k = k' then (k', vs @ [v]) # rest else (k', vs) # dict_append k v rest)"

text \<open>\<open>d.get(k, [])\<close>: reads only, a missing key is not inserted.\<close>

definition dict_get :: "(string \<times> string list) list \<Rightarrow> string \<Rightarrow> string list" where
  "dict_get d k = (case map_of d k of None \<Rightarrow> [] | Some vs \<Rightarrow> vs)"

section \<open>Training\<close>

text \<open>\<open>text.strip()\<close>.\<close>

definition strip :: "string \<Rightarrow> string" where
  "strip t = rev (dropWhile isspace (rev (dropWhile isspace t)))"

text \<open>\<open>re.sub(r'\s+', ' ', t)\<close>: each maximal run of blanks becomes one space.\<close>

function collapse_ws :: "string \<Rightarrow> string" where
  "collapse_ws [] = []"
| "collapse_ws (c # cs) =
     (if isspace c then CHR '' '' # collapse_ws (dropWhile isspace cs)
      else c # collapse_ws cs)"
  by pat_completeness auto
termination
  by (relation "measure length") (auto simp: less_Suc_eq_le length_dropWhile_le)

text \<open>\<open>t.split()\<close>: the maximal runs of non-blank characters.\<close>

function split_ws :: "string \<Rightarrow> string list" where
  "split_ws [] = []"
| "split_ws (c # cs) =
     (if isspace c then split_ws cs
      else takeWhile (\<lambda>x. \<not> isspace x) (c # cs)
             # split_ws (dropWhile (\<lambda>x. \<not> isspace x) cs))"
  by pat_completeness auto
termination
  by (relation "measure length") (auto simp: less_Suc_eq_le length_dropWhile_le)

definition tokenize_text :: "string \<Rightarrow> string list" where
  "tokenize_text text = split_ws (collapse_ws (strip text))"

text \<open>
  The body of \<open>for i in range(len(words) - 1)\<close>. The indices \<open>i\<close>, \<open>i + 1\<close> and
  \<open>i - 1\<close> (read only when \<open>i > 0\<close>) are in range for every \<open>i\<close> of that range.
\<close>

definition train_step :: "string list \<Rightarrow> nat \<Rightarrow> generator \<Rightarrow> py_error + generator" where
  "train_step words i s =
     (let current_word = words ! i;
          next_word = words ! (i + 1);
          s1 = s\<lparr>bigrams := dict_append current_word next_word (bigrams s)\<rparr>
      in if i > 0 \<and> ends_sentence (words ! (i - 1)) then
           (case first_isupper current_word of
              Inl e \<Rightarrow> Inl e
            | Inr b \<Rightarrow>
                Inr (if b then s1\<lparr>sentence_starters := sentence_starters s1 @ [current_word]\<rparr>
                     else s1))
         else Inr s1)"

fun train_loop :: "string list \<Rightarrow> nat list \<Rightarrow> generator \<Rightarrow> py_error + generator" where
  "train_loop words [] s = Inr s"
| "train_loop words (i # is) s =
     (case train_step words i s of
        Inl e \<Rightarrow> Inl e
      | Inr s' \<Rightarrow> train_loop words is s')"

definition load_training_data :: "generator \<Rightarrow> string \<Rightarrow> py_error + generator" where
  "load_training_data s text =
     (let words = tokenize_text text
      in case train_loop words [0..<length words - 1] s of
           Inl e \<Rightarrow> Inl e
         | Inr s' \<Rightarrow>
             (if words \<noteq> [] then
                (case first_isupper (words ! 0) of
                   Inl e \<Rightarrow> Inl e
                 | Inr b \<Rightarrow>
                     Inr (if b then s'\<lparr>sentence_starters := sentence_starters s' @ [words ! 0]\<rparr>
                          else s'))
              else Inr s'))"

section \<open>Generation\<close>

text \<open>\<open>_choose_starting_word\<close>, with the random draw \<open>r\<close>.\<close>

definition choose_starting_word :: "generator \<Rightarrow> nat \<Rightarrow> py_error + string" where
  "choose_starting_word s r =
     (if sentence_starters s \<noteq> [] then random_choice r (sentence_starters s)
      else if bigrams s \<noteq> [] then
        (let capitalized_words =
               filter (\<lambda>word. case word of [] \<Rightarrow> False | c # _ \<Rightarrow> isupper c)
                 (map fst (bigrams s))
         in if capitalized_words \<noteq> [] then random_choice r capitalized_words
            else random_choice r (map fst (bigrams s)))
      else Inr ''The'')"

text \<open>
  The three ways out of the loop of \<open>generate_synopsis\<close>: the range is used up, the
  first \<open>break\<close> (no successor recorded) and the second \<open>break\<close> (natural ending).
\<close>

datatype walk_exit = RangeExhausted | NoTransitions | NaturalEnding

text \<open>
  The loop \<open>for i in range(max_length - 1)\<close>: \<open>n\<close> iterations are left, \<open>i\<close> is the
  loop index, \<open>rnd (Suc i)\<close> the draw of iteration \<open>i\<close>. The result is the list
  \<open>synopsis\<close> and the exit taken.
\<close>

fun walk :: "(string \<times> string list) list \<Rightarrow> int \<Rightarrow> (nat \<Rightarrow> nat) \<Rightarrow> nat \<Rightarrow> nat \<Rightarrow> string
               \<Rightarrow> string list \<Rightarrow> py_error + (string list \<times> walk_exit)" where
  "walk d min_length rnd 0 i current_word synopsis = Inr (synopsis, RangeExhausted)"
| "walk d min_length rnd (Suc n) i current_word synopsis =
     (let next_words = dict_get d current_word
      in if next_words = [] then Inr (synopsis, NoTransitions)
         else
           (case random_choice (rnd (Suc i)) next_words of
              Inl e \<Rightarrow> Inl e
            | Inr next_word \<Rightarrow>
                (let synopsis' = synopsis @ [next_word]
                 in if min_length - 1 \<le> int i \<and> ends_sentence next_word
                    then Inr (synopsis', NaturalEnding)
                    else walk d min_length rnd n (Suc i) next_word synopsis')))"

text \<open>
  The token list of \<open>generate_synopsis\<close> on a trained model: the start token, then the
  walk of \<open>range(max_length - 1)\<close>.
\<close>

definition generate_tokens :: "generator \<Rightarrow> (nat \<Rightarrow> nat) \<Rightarrow> int \<Rightarrow> int
                                 \<Rightarrow> py_error + (string list \<times> walk_exit)" where
  "generate_tokens s rnd max_length min_length =
     (case choose_starting_word s (rnd 0) of
        Inl e \<Rightarrow> Inl e
      | Inr current_word \<Rightarrow>
          walk (bigrams s) min_length rnd (nat (max_length - 1)) 0 current_word [current_word])"

text \<open>\<open>' '.join(synopsis)\<close>.\<close>

fun join :: "string list \<Rightarrow> string" where
  "join [] = []"
| "join [w] = w"
| "join (w # ws) = w @ '' '' @ join ws"

section \<open>Post-processing\<close>

text \<open>The character classes \<open>[.!?,:;]\<close>, \<open>[.!?]\<close> and \<open>[A-Z]\<close> of the two patterns.\<close>

definition punct_class :: "char \<Rightarrow> bool" where
  "punct_class c = (c \<in> set ''.!?,:;'')"

definition terminal_class :: "char \<Rightarrow> bool" where
  "terminal_class c = (c \<in> set ''.!?'')"

definition upper_class :: "char \<Rightarrow> bool" where
  "upper_class c = (c \<in> set ''ABCDEFGHIJKLMNOPQRSTUVWXYZ'')"

text \<open>
  \<open>re.sub(r'\s+([.!?,:;])', r'\1', text)\<close>. A match starts at a blank whose run of
  blanks is followed by a punctuation mark; it is replaced by the mark and the scan goes
  on after the mark.
\<close>

function re_sub_space_punct :: "string \<Rightarrow> string" where
  "re_sub_space_punct [] = []"
| "re_sub_space_punct (c # cs) =
     (if isspace c then
        (case dropWhile isspace cs of
           [] \<Rightarrow> c # re_sub_space_punct cs
         | p # rest \<Rightarrow>
             if punct_class p then p # re_sub_space_punct rest
             else c # re_sub_space_punct cs)
      else c # re_sub_space_punct cs)"
  by pat_completeness auto
termination
proof (relation "measure length")
  fix c :: char and cs :: string and p :: char and rest :: string
  assume "dropWhile isspace cs = p # rest"
  then have "length (p # rest) \<le> length cs"
    by (metis length_dropWhile_le)
  then show "(rest, c # cs) \<in> measure length"
    by simp
qed auto

text \<open>
  \<open>re.sub(r'([.!?])\s*([A-Z])', r'\1 \2', text)\<close>. A match starts at a terminal mark
  followed by blanks (possibly none) and a capital letter; the blanks are replaced by one
  space and the scan goes on after the capital.
\<close>

function re_sub_terminal_upper :: "string \<Rightarrow> string" where
  "re_sub_terminal_upper [] = []"
| "re_sub_terminal_upper (c # cs) =
     (if terminal_class c then
        (case dropWhile isspace cs of
           [] \<Rightarrow> c # re_sub_terminal_upper cs
         | u # rest \<Rightarrow>
             if upper_class u then c # CHR '' '' # u # re_sub_terminal_upper rest
             else c # re_sub_terminal_upper cs)
      else c # re_sub_terminal_upper cs)"
  by pat_completeness auto
termination
proof (relation "measure length")
  fix c :: char and cs :: string and u :: char and rest :: string
  assume "dropWhile isspace cs = u # rest"
  then have "length (u # rest) \<le> length cs"
    by (metis length_dropWhile_le)
  then show "(rest, c # cs) \<in> measure length"
    by simp
qed auto

text \<open>\<open>text[0].upper() + text[1:] if len(text) > 1 else text.upper()\<close>, under \<open>if text\<close>.\<close>

definition capitalize_first :: "string \<Rightarrow> string" where
  "capitalize_first text =
     (case text of
        [] \<Rightarrow> []
      | c # cs \<Rightarrow> if length text > 1 then upper_char c # cs else map upper_char text)"

text \<open>The first step of \<open>_post_process_text\<close>: \<open>text += "."\<close> when no ender is there.\<close>

definition ensure_ending :: "string \<Rightarrow> string" where
  "ensure_ending text = (if text \<noteq> [] \<and> \<not> ends_sentence text then text @ ''.'' else text)"

definition post_process_text :: "string \<Rightarrow> string" where
  "post_process_text text =
     capitalize_first (re_sub_terminal_upper (re_sub_space_punct (ensure_ending text)))"

definition generate_synopsis :: "generator \<Rightarrow> (nat \<Rightarrow> nat) \<Rightarrow> int \<Rightarrow> int \<Rightarrow> py_error + string" where
  "generate_synopsis s rnd max_length min_length =
     (if bigrams s = [] then Inr ''No training data available.''
      else
        (case generate_tokens s rnd max_length min_length of
           Inl e \<Rightarrow> Inl e
         | Inr (synopsis, _) \<Rightarrow> Inr (post_process_text (join synopsis))))"

section \<open>Reporting\<close>

text \<open>
  \<open>get_stats\<close>: \<open>len(self.bigrams)\<close>, the sum of the lengths of the successor lists and
  \<open>len(set(self.sentence_starters))\<close>, in the order of the keys \<open>unique_words\<close>,
  \<open>total_transitions\<close>, \<open>sentence_starters\<close> of the returned dictionary.
\<close>

definition get_stats :: "generator \<Rightarrow> nat \<times> nat \<times> nat" where
  "get_stats s =
     (length (bigrams s),
      sum_list (map (\<lambda>(word, transitions). length transitions) (bigrams s)),
      length (remdups (sentence_starters s)))"

text \<open>The slice \<open>xs[:n]\<close>; a negative \<open>n\<close> counts from the end.\<close>

definition py_prefix :: "int \<Rightarrow> 'a list \<Rightarrow> 'a list" where
  "py_prefix n xs = (if 0 \<le> n then take (nat n) xs else take (length xs - nat (- n)) xs)"

text \<open>
  \<open>print_bigram_sample\<close>: one printed line for each of the first \<open>sample_size\<close> items,
  given here by its three parts: the word, \<open>next_words[:10]\<close> and whether \<open>"..."\<close>
  follows.
\<close>

definition print_bigram_sample :: "generator \<Rightarrow> int \<Rightarrow> (string \<times> string list \<times> bool) list" where
  "print_bigram_sample s sample_size =
     map (\<lambda>(word, next_words). (word, take 10 next_words, 10 < length next_words))
       (py_prefix sample_size (bigrams s))"

section \<open>The operations on a generator\<close>

text \<open>
  A call of one of the four methods, with its arguments, and what it returns or prints.
  Only \<open>load_training_data\<close> assigns to the generator: the other three read
  \<open>self.bigrams\<close> through \<open>get\<close>, \<open>keys\<close>, \<open>items\<close>, \<open>values\<close> and \<open>len\<close>, none of
  which inserts a key into the \<open>defaultdict\<close>, so they hand the state on as it was.
\<close>

datatype operation =
    LoadTrainingData string
  | GenerateSynopsis int int
  | GetStats
  | PrintBigramSample int

datatype outcome =
    Loaded
  | Synopsis string
  | Stats "nat \<times> nat \<times> nat"
  | Printed "(string \<times> string list \<times> bool) list"

definition perform :: "(nat \<Rightarrow> nat) \<Rightarrow> operation \<Rightarrow> generator \<Rightarrow> py_error + (outcome \<times> generator)" where
  "perform rnd op s =
     (case op of
        LoadTrainingData text \<Rightarrow>
          (case load_training_data s text of Inl e \<Rightarrow> Inl e | Inr s' \<Rightarrow> Inr (Loaded, s'))
      | GenerateSynopsis max_length min_length \<Rightarrow>
          (case generate_synopsis s rnd max_length min_length of
             Inl e \<Rightarrow> Inl e
           | Inr text \<Rightarrow> Inr (Synopsis text, s))
      | GetStats \<Rightarrow> Inr (Stats (get_stats s), s)
      | PrintBigramSample sample_size \<Rightarrow> Inr (Printed (print_bigram_sample s sample_size), s))"

text \<open>The states a generator can be in: a new one, trained any number of times.\<close>

inductive reachable :: "generator \<Rightarrow> bool" where
  init: "reachable generator_init"
| load: "reachable s \<Longrightarrow> load_training_data s text = Inr s' \<Longrightarrow> reachable s'"

text \<open>Training a new generator on \<open>T1\<close> and then, the same generator, on \<open>T2\<close>.\<close>

definition retrain :: "string \<Rightarrow> string \<Rightarrow> py_error + generator" where
  "retrain T1 T2 =
     (case load_training_data generator_init T1 of
        Inl e \<Rightarrow> Inl e
      | Inr s \<Rightarrow> load_training_data s T2)"

section \<open>Properties of states and walks\<close>

text \<open>Every key of the transition table has at least one successor.\<close>

definition successors_nonempty :: "generator \<Rightarrow> bool" where
  "successors_nonempty s = list_all (\<lambda>(k, vs). vs \<noteq> []) (bigrams s)"

text \<open>No key and no starter is the empty string.\<close>

definition tokens_nonempty :: "generator \<Rightarrow> bool" where
  "tokens_nonempty s \<longleftrightarrow>
     [] \<notin> set (map fst (bigrams s)) \<and> [] \<notin> set (sentence_starters s)"

text \<open>
  Token \<open>j \<ge> 1\<close> of the list a walk returns was appended by iteration \<open>j - 1\<close>, and the
  list had \<open>Suc j\<close> tokens then. The walk stopped at the natural endings from
  \<open>threshold\<close> tokens on when each appended token that ends a sentence, in a list of at
  least \<open>threshold\<close> tokens, is the last token of the result.
\<close>

definition natural_stop_respected :: "int \<Rightarrow> string list \<Rightarrow> bool" where
  "natural_stop_respected threshold synopsis =
     list_all
       (\<lambda>j. threshold \<le> int (Suc j) \<and> ends_sentence (synopsis ! j) \<longrightarrow> Suc j = length synopsis)
       [1..<length synopsis]"

text \<open>No blank stands immediately before a mark of \<open>[.!?,:;]\<close>.\<close>

fun no_space_before_punct :: "string \<Rightarrow> bool" where
  "no_space_before_punct (a # b # cs) =
     (\<not> (isspace a \<and> punct_class b) \<and> no_space_before_punct (b # cs))"
| "no_space_before_punct _ = True"

text \<open>The random source whose every draw is \<open>0\<close>: each choice takes the first candidate.\<close>

definition always_first :: "nat \<Rightarrow> nat" where
  "always_first n = 0"

text \<open>The model learnt from the text \<open>A b. C\<close>.\<close>

definition abc_model :: generator where
  "abc_model = \<lparr>bigrams = [(''A'', [''b.'']), (''b.'', [''C''])], sentence_starters = [''A'']\<rparr>"

section \<open>Sentence endings and tokens\<close>

lemma endswith_single: "endswith w [c] \<longleftrightarrow> w \<noteq> [] \<and> last w = c"
proof (cases w rule: rev_cases)
  case Nil
  then show ?thesis by (simp add: endswith_def)
next
  case (snoc ys y)
  then show ?thesis by (auto simp: endswith_def)
qed

lemma ends_sentence_iff: "ends_sentence w \<longleftrightarrow> w \<noteq> [] \<and> terminal_class (last w)"
  by (auto simp: ends_sentence_def sentence_enders_def endswith_single terminal_class_def)

lemma split_ws_nonempty: "[] \<notin> set (split_ws t)"
  by (induction t rule: split_ws.induct) auto

lemma tokenize_text_nonempty: "[] \<notin> set (tokenize_text text)"
  by (simp add: tokenize_text_def split_ws_nonempty)

lemma first_isupper_Inr: "w \<noteq> [] \<Longrightarrow> \<exists>b. first_isupper w = Inr b"
  by (cases w) (simp_all add: first_isupper_def)

lemma train_step_Inr:
  assumes "words ! i \<noteq> []"
  shows "\<exists>s'. train_step words i s = Inr s'"
proof -
  obtain b where "first_isupper (words ! i) = Inr b"
    using first_isupper_Inr [OF assms] by blast
  then show ?thesis
    by (simp add: train_step_def Let_def)
qed

lemma train_loop_Inr:
  "(\<And>i. i \<in> set idxs \<Longrightarrow> words ! i \<noteq> []) \<Longrightarrow> \<exists>s'. train_loop words idxs s = Inr s'"
proof (induction idxs arbitrary: s)
  case Nil
  then show ?case by simp
next
  case (Cons i idxs)
  obtain s1 where "train_step words i s = Inr s1"
    using train_step_Inr [of words i s] Cons.prems by auto
  moreover obtain s' where "train_loop words idxs s1 = Inr s'"
    using Cons.IH [of s1] Cons.prems by auto
  ultimately show ?case by simp
qed

lemma train_loop_tokens_Inr:
  assumes "[] \<notin> set words"
  shows "\<exists>s'. train_loop words [0..<length words - 1] s = Inr s'"
proof (rule train_loop_Inr)
  fix i assume "i \<in> set [0..<length words - 1]"
  then have "i < length words" by auto
  then show "words ! i \<noteq> []" using assms nth_mem by metis
qed

lemma load_training_data_Inr: "\<exists>s'. load_training_data s text = Inr s'"
proof -
  let ?w = "tokenize_text text"
  have ne: "[] \<notin> set ?w" by (rule tokenize_text_nonempty)
  obtain s1 where s1: "train_loop ?w [0..<length ?w - 1] s = Inr s1"
    using train_loop_tokens_Inr [OF ne] by blast
  show ?thesis
  proof (cases "?w = []")
    case True
    with s1 show ?thesis by (simp add: load_training_data_def Let_def)
  next
    case False
    then have "?w ! 0 \<noteq> []" using ne nth_mem [of 0 ?w] by (metis length_greater_0_conv)
    then obtain b where "first_isupper (?w ! 0) = Inr b"
      using first_isupper_Inr by blast
    with s1 False show ?thesis by (simp add: load_training_data_def Let_def)
  qed
qed

section \<open>Training appends to the model\<close>

lemma dict_get_dict_append:
  "dict_get (dict_append k v d) k' = dict_get d k' @ (if k' = k then [v] else [])"
  by (induction d) (auto simp: dict_get_def)

lemma train_step_cases:
  assumes "train_step words i s = Inr s'"
  shows "bigrams s' = dict_append (words ! i) (words ! (i + 1)) (bigrams s)"
    and "sentence_starters s' = sentence_starters s \<or>
         sentence_starters s' = sentence_starters s @ [words ! i]"
  using assms
  by (auto simp: train_step_def Let_def split: if_splits sum.splits)

lemma train_step_rel:
  assumes "train_step words i s = Inr s'" and "train_step words i t = Inr t'"
    and "\<And>k. dict_get (bigrams s) k = B k @ dict_get (bigrams t) k"
    and "sentence_starters s = S @ sentence_starters t"
  shows "(\<forall>k. dict_get (bigrams s') k = B k @ dict_get (bigrams t') k)
         \<and> sentence_starters s' = S @ sentence_starters t'"
  using assms
  by (auto simp: train_step_def Let_def dict_get_dict_append split: if_splits sum.splits)

lemma train_loop_rel:
  assumes "train_loop words idxs s = Inr s'" and "train_loop words idxs t = Inr t'"
    and "\<And>k. dict_get (bigrams s) k = B k @ dict_get (bigrams t) k"
    and "sentence_starters s = S @ sentence_starters t"
  shows "(\<forall>k. dict_get (bigrams s') k = B k @ dict_get (bigrams t') k)
         \<and> sentence_starters s' = S @ sentence_starters t'"
  using assms
proof (induction idxs arbitrary: s t)
  case Nil
  then show ?case by simp
next
  case (Cons i idxs)
  from Cons.prems(1) obtain s1 where s1: "train_step words i s = Inr s1"
    and s1': "train_loop words idxs s1 = Inr s'"
    by (auto split: sum.splits)
  from Cons.prems(2) obtain t1 where t1: "train_step words i t = Inr t1"
    and t1': "train_loop words idxs t1 = Inr t'"
    by (auto split: sum.splits)
  from train_step_rel [OF s1 t1 Cons.prems(3) Cons.prems(4)]
  have "\<And>k. dict_get (bigrams s1) k = B k @ dict_get (bigrams t1) k"
    and "sentence_starters s1 = S @ sentence_starters t1"
    by auto
  from Cons.IH [OF s1' t1' this] show ?case .
qed

lemma load_training_data_rel:
  assumes "load_training_data s text = Inr s'" and "load_training_data t text = Inr t'"
    and "\<And>k. dict_get (bigrams s) k = B k @ dict_get (bigrams t) k"
    and "sentence_starters s = S @ sentence_starters t"
  shows "(\<forall>k. dict_get (bigrams s') k = B k @ dict_get (bigrams t') k)
         \<and> sentence_starters s' = S @ sentence_starters t'"
proof -
  let ?w = "tokenize_text text"
  from assms(1) obtain s1 where s1: "train_loop ?w [0..<length ?w - 1] s = Inr s1"
    by (auto simp: load_training_data_def Let_def split: sum.splits)
  from assms(2) obtain t1 where t1: "train_loop ?w [0..<length ?w - 1] t = Inr t1"
    by (auto simp: load_training_data_def Let_def split: sum.splits)
  from train_loop_rel [OF s1 t1 assms(3) assms(4)]
  have r: "\<And>k. dict_get (bigrams s1) k = B k @ dict_get (bigrams t1) k"
    "sentence_starters s1 = S @ sentence_starters t1"
    by auto
  show ?thesis
    using assms(1,2) s1 t1 r
    by (auto simp: load_training_data_def Let_def split: sum.splits if_splits)
qed

lemma load_training_data_blank:
  "tokenize_text text = [] \<Longrightarrow> load_training_data s text = Inr s"
  by (simp add: load_training_data_def)


section \<open>Invariants of training\<close>

lemma train_loop_invariant:
  assumes "train_loop words idxs s = Inr s'" and "P s"
    and "\<And>i t t'. i \<in> set idxs \<Longrightarrow> P t \<Longrightarrow> train_step words i t = Inr t' \<Longrightarrow> P t'"
  shows "P s'"
  using assms
proof (induction idxs arbitrary: s)
  case Nil
  then show ?case by simp
next
  case (Cons i idxs)
  from Cons.prems(1) obtain s1 where s1: "train_step words i s = Inr s1"
    and rest: "train_loop words idxs s1 = Inr s'"
    by (auto split: sum.splits)
  have "P s1" using Cons.prems(2,3) s1 by auto
  with rest show ?case using Cons.IH [of s1] Cons.prems(3) by auto
qed

lemma load_training_data_invariant:
  assumes "load_training_data s text = Inr s'" and "P s"
    and step: "\<And>i t t'. i < length (tokenize_text text) - 1 \<Longrightarrow> P t
                 \<Longrightarrow> train_step (tokenize_text text) i t = Inr t' \<Longrightarrow> P t'"
    and final: "\<And>t. tokenize_text text \<noteq> [] \<Longrightarrow> P t
                 \<Longrightarrow> P (t\<lparr>sentence_starters := sentence_starters t @ [tokenize_text text ! 0]\<rparr>)"
  shows "P s'"
proof -
  let ?w = "tokenize_text text"
  from assms(1) obtain s1 where s1: "train_loop ?w [0..<length ?w - 1] s = Inr s1"
    by (auto simp: load_training_data_def Let_def split: sum.splits)
  have "P s1"
    by (rule train_loop_invariant [where P = P, OF s1 assms(2)]) (use step in auto)
  moreover from assms(1) s1
  have "s' = s1 \<or> (?w \<noteq> [] \<and> s' = s1\<lparr>sentence_starters := sentence_starters s1 @ [?w ! 0]\<rparr>)"
    by (auto simp: load_training_data_def Let_def split: sum.splits if_splits)
  ultimately show ?thesis using final by auto
qed

lemma list_all_dict_append:
  "list_all (\<lambda>(k, vs). vs \<noteq> []) d \<Longrightarrow> list_all (\<lambda>(k, vs). vs \<noteq> []) (dict_append k v d)"
  by (induction d) auto

lemma train_step_successors_nonempty:
  "successors_nonempty t \<Longrightarrow> train_step words i t = Inr t' \<Longrightarrow> successors_nonempty t'"
  using train_step_cases(1) [of words i t t']
  by (simp add: successors_nonempty_def list_all_dict_append)

lemma load_training_data_successors_nonempty:
  assumes "successors_nonempty s" and "load_training_data s text = Inr s'"
  shows "successors_nonempty s'"
proof (rule load_training_data_invariant [where P = successors_nonempty, OF assms(2) assms(1)])
  fix i t t'
  assume "successors_nonempty t" and "train_step (tokenize_text text) i t = Inr t'"
  then show "successors_nonempty t'" by (rule train_step_successors_nonempty)
next
  fix t
  assume "successors_nonempty t"
  then show "successors_nonempty
               (t\<lparr>sentence_starters := sentence_starters t @ [tokenize_text text ! 0]\<rparr>)"
    by (simp add: successors_nonempty_def)
qed

lemma map_fst_dict_append:
  "map fst (dict_append k v d) = (if k \<in> set (map fst d) then map fst d else map fst d @ [k])"
  by (induction d) force+

lemma keys_dict_append: "set (map fst (dict_append k v d)) = insert k (set (map fst d))"
  unfolding map_fst_dict_append by auto

lemma train_step_tokens_nonempty:
  assumes "tokens_nonempty t" and "train_step words i t = Inr t'" and "words ! i \<noteq> []"
  shows "tokens_nonempty t'"
  using train_step_cases [OF assms(2)] assms(1,3) keys_dict_append [of "words ! i" "words ! (i + 1)" "bigrams t"]
  unfolding tokens_nonempty_def by auto

lemma load_training_data_tokens_nonempty:
  assumes "tokens_nonempty s" and "load_training_data s text = Inr s'"
  shows "tokens_nonempty s'"
proof (rule load_training_data_invariant [where P = tokens_nonempty, OF assms(2) assms(1)])
  fix i t t'
  assume "i < length (tokenize_text text) - 1" and t: "tokens_nonempty t"
    and st: "train_step (tokenize_text text) i t = Inr t'"
  then have "tokenize_text text ! i \<in> set (tokenize_text text)" by simp
  then have "tokenize_text text ! i \<noteq> []" using tokenize_text_nonempty by metis
  then show "tokens_nonempty t'" by (rule train_step_tokens_nonempty [OF t st])
next
  fix t
  assume "tokenize_text text \<noteq> []" and t: "tokens_nonempty t"
  then have "tokenize_text text ! 0 \<in> set (tokenize_text text)" by simp
  then have "tokenize_text text ! 0 \<noteq> []" using tokenize_text_nonempty by metis
  then show "tokens_nonempty (t\<lparr>sentence_starters := sentence_starters t @ [tokenize_text text ! 0]\<rparr>)"
    using t by (auto simp: tokens_nonempty_def)
qed

section \<open>The walk\<close>

lemma random_choice_Inr: "xs \<noteq> [] \<Longrightarrow> \<exists>x. random_choice r xs = Inr x \<and> x \<in> set xs"
  by (simp add: random_choice_def)

lemma choose_starting_word_Inr:
  "\<exists>w. choose_starting_word s r = Inr w \<and>
       (w \<in> set (sentence_starters s) \<or> w \<in> set (map fst (bigrams s)) \<or> w = ''The'')"
proof (cases "sentence_starters s = []")
  case False
  then show ?thesis
    using random_choice_Inr [of "sentence_starters s" r]
    by (auto simp: choose_starting_word_def)
next
  case True
  note no_starters = this
  show ?thesis
  proof (cases "bigrams s = []")
    case True
    with no_starters show ?thesis by (simp add: choose_starting_word_def)
  next
    case False
    let ?caps = "filter (\<lambda>word. case word of [] \<Rightarrow> False | c # _ \<Rightarrow> isupper c) (map fst (bigrams s))"
    show ?thesis
    proof (cases "?caps = []")
      case True
      from False have "map fst (bigrams s) \<noteq> []" by simp
      from random_choice_Inr [OF this, of r] True False no_starters
      show ?thesis by (auto simp: choose_starting_word_def Let_def)
    next
      case nonempty: False
      from random_choice_Inr [OF this, of r]
      obtain w where "random_choice r ?caps = Inr w" and "w \<in> set ?caps" by blast
      then have "choose_starting_word s r = Inr w" and "w \<in> set (map fst (bigrams s))"
        using nonempty False no_starters by (auto simp: choose_starting_word_def Let_def)
      then show ?thesis by blast
    qed
  qed
qed

lemma walk_Suc_cases:
  assumes "walk d mn rnd (Suc n) i cur syn = Inr (out, ex)"
  obtains (dead) "dict_get d cur = []" "out = syn" "ex = NoTransitions"
  | (stop) w where "dict_get d cur \<noteq> []" "w \<in> set (dict_get d cur)"
      "mn - 1 \<le> int i" "ends_sentence w" "out = syn @ [w]" "ex = NaturalEnding"
  | (continue) w where "dict_get d cur \<noteq> []" "w \<in> set (dict_get d cur)"
      "\<not> (mn - 1 \<le> int i \<and> ends_sentence w)"
      "walk d mn rnd n (Suc i) w (syn @ [w]) = Inr (out, ex)"
proof (cases "dict_get d cur = []")
  case True
  with assms show ?thesis by (auto intro: dead)
next
  case False
  from random_choice_Inr [OF this, of "rnd (Suc i)"]
  obtain w where w: "random_choice (rnd (Suc i)) (dict_get d cur) = Inr w" "w \<in> set (dict_get d cur)"
    by blast
  show ?thesis
  proof (cases "mn - 1 \<le> int i \<and> ends_sentence w")
    case True
    with assms False w show ?thesis by (auto intro: stop [of w])
  next
    case no: False
    with assms False w have "walk d mn rnd n (Suc i) w (syn @ [w]) = Inr (out, ex)"
      by (auto simp: Let_def)
    with False w no show ?thesis by (auto intro: continue [of w])
  qed
qed

lemma walk_Inr: "\<exists>out ex. walk d mn rnd n i cur syn = Inr (out, ex)"
proof (induction n arbitrary: i cur syn)
  case 0
  then show ?case by simp
next
  case (Suc n)
  show ?case
  proof (cases "dict_get d cur = []")
    case True
    then show ?thesis by simp
  next
    case False
    from random_choice_Inr [OF this, of "rnd (Suc i)"]
    obtain w where w: "random_choice (rnd (Suc i)) (dict_get d cur) = Inr w" by blast
    with False Suc.IH [of "Suc i" w "syn @ [w]"] show ?thesis
      by (auto simp: Let_def)
  qed
qed

lemma walk_length:
  "walk d mn rnd n i cur syn = Inr (out, ex) \<Longrightarrow> length out \<le> length syn + n"
proof (induction n arbitrary: i cur syn)
  case 0
  then show ?case by simp
next
  case (Suc n)
  from Suc.prems show ?case
  proof (cases rule: walk_Suc_cases)
    case (continue w)
    from Suc.IH [OF continue(4)] show ?thesis by simp
  qed auto
qed

lemma walk_prefix:
  "walk d mn rnd n i cur syn = Inr (out, ex) \<Longrightarrow> \<exists>ys. out = syn @ ys"
proof (induction n arbitrary: i cur syn)
  case 0
  then show ?case by simp
next
  case (Suc n)
  from Suc.prems show ?case
  proof (cases rule: walk_Suc_cases)
    case (continue w)
    from Suc.IH [OF continue(4)] show ?thesis by auto
  qed auto
qed

lemma walk_exit:
  assumes "walk d mn rnd n i cur syn = Inr (out, ex)"
    and "length syn = Suc i" and "last syn = cur"
  shows "(ex = NaturalEnding \<longrightarrow> mn < int (length out))
       \<and> (ex = RangeExhausted \<longrightarrow> length out = length syn + n)
       \<and> (ex = NoTransitions \<longrightarrow> dict_get d (last out) = [])"
  using assms
proof (induction n arbitrary: i cur syn)
  case 0
  then show ?case by simp
next
  case (Suc n)
  from Suc.prems(1) show ?case
  proof (cases rule: walk_Suc_cases)
    case dead
    with Suc.prems show ?thesis by simp
  next
    case (stop w)
    with Suc.prems show ?thesis by simp
  next
    case (continue w)
    from Suc.IH [OF continue(4)] Suc.prems(2) show ?thesis by simp
  qed
qed

lemma walk_stops:
  assumes "walk d mn rnd n i cur syn = Inr (out, ex)"
    and "length syn = Suc i"
    and "\<And>j. 1 \<le> j \<Longrightarrow> j < length syn \<Longrightarrow> \<not> (mn \<le> int j \<and> ends_sentence (syn ! j))"
    and "1 \<le> j" and "j < length out" and "mn \<le> int j" and "ends_sentence (out ! j)"
  shows "Suc j = length out"
  using assms
proof (induction n arbitrary: i cur syn)
  case 0
  then show ?case by auto
next
  case (Suc n)
  from Suc.prems(1) show ?case
  proof (cases rule: walk_Suc_cases)
    case dead
    with Suc.prems show ?thesis by auto
  next
    case (stop w)
    show ?thesis
    proof (cases "j < length syn")
      case True
      with Suc.prems(3) [of j] Suc.prems(4,6,7) stop(5) show ?thesis
        by (simp add: nth_append)
    next
      case False
      with Suc.prems(5) stop(5) show ?thesis by simp
    qed
  next
    case (continue w)
    have inv: "\<And>j. 1 \<le> j \<Longrightarrow> j < length (syn @ [w])
                 \<Longrightarrow> \<not> (mn \<le> int j \<and> ends_sentence ((syn @ [w]) ! j))"
    proof -
      fix j assume j: "1 \<le> j" "j < length (syn @ [w])"
      show "\<not> (mn \<le> int j \<and> ends_sentence ((syn @ [w]) ! j))"
      proof (cases "j < length syn")
        case True
        with Suc.prems(3) [OF j(1) True] show ?thesis by (simp add: nth_append)
      next
        case False
        with j have "j = length syn" by simp
        with continue(3) Suc.prems(2) show ?thesis by (auto simp: nth_append)
      qed
    qed
    show ?thesis
      by (rule Suc.IH [OF continue(4) _ inv Suc.prems(4,5,6,7)]) (simp_all add: Suc.prems(2))
  qed
qed

section \<open>The post-processor\<close>

subsection \<open>Character classes\<close>

lemma punct_not_space: "punct_class c \<Longrightarrow> \<not> isspace c"
  by (auto simp: punct_class_def isspace_def)

lemma terminal_is_punct: "terminal_class c \<Longrightarrow> punct_class c"
  by (auto simp: punct_class_def terminal_class_def)

lemma terminal_not_space: "terminal_class c \<Longrightarrow> \<not> isspace c"
  by (auto simp: terminal_class_def isspace_def)

lemma upper_not_space: "upper_class c \<Longrightarrow> \<not> isspace c"
  by (auto simp: upper_class_def isspace_def)

lemma upper_not_punct: "upper_class c \<Longrightarrow> \<not> punct_class c"
  by (auto simp: upper_class_def punct_class_def)

lemma upper_char_cases:
  "upper_char c = c \<or> (c \<in> set ''abcdefghijklmnopqrstuvwxyz'' \<and> upper_class (upper_char c))"
proof (cases "map_of (zip ''abcdefghijklmnopqrstuvwxyz'' ''ABCDEFGHIJKLMNOPQRSTUVWXYZ'') c")
  case None
  then show ?thesis by (simp add: upper_char_def)
next
  case (Some u)
  then have "(c, u) \<in> set (zip ''abcdefghijklmnopqrstuvwxyz'' ''ABCDEFGHIJKLMNOPQRSTUVWXYZ'')"
    by (rule map_of_SomeD)
  then have "c \<in> set ''abcdefghijklmnopqrstuvwxyz''" and "u \<in> set ''ABCDEFGHIJKLMNOPQRSTUVWXYZ''"
    by (auto dest: set_zip_leftD set_zip_rightD)
  with Some show ?thesis by (simp add: upper_char_def upper_class_def)
qed

lemma upper_char_fixed:
  assumes "c \<notin> set ''abcdefghijklmnopqrstuvwxyz''"
  shows "upper_char c = c"
  using upper_char_cases [of c] assms by blast

lemma upper_class_not_lower: "upper_class c \<Longrightarrow> c \<notin> set ''abcdefghijklmnopqrstuvwxyz''"
  by (auto simp: upper_class_def)

lemma upper_char_idem: "upper_char (upper_char c) = upper_char c"
  using upper_char_cases [of c] upper_char_fixed upper_class_not_lower by metis

lemma space_not_lower: "isspace c \<Longrightarrow> c \<notin> set ''abcdefghijklmnopqrstuvwxyz''"
  by (auto simp: isspace_def)

lemma terminal_not_lower: "terminal_class c \<Longrightarrow> c \<notin> set ''abcdefghijklmnopqrstuvwxyz''"
  by (auto simp: terminal_class_def)

lemma upper_char_space: "isspace (upper_char c) \<longleftrightarrow> isspace c"
  using upper_char_cases [of c] upper_not_space space_not_lower by metis

lemma upper_char_terminal: "terminal_class (upper_char c) \<longleftrightarrow> terminal_class c"
  using upper_char_cases [of c] upper_not_punct terminal_is_punct terminal_not_lower by metis

lemma upper_char_terminal_fixed: "terminal_class c \<Longrightarrow> upper_char c = c"
  using upper_char_fixed terminal_not_lower by blast

subsection \<open>The first pattern: blanks before a punctuation mark\<close>

lemma re_sub_space_punct_match:
  "isspace c \<Longrightarrow> dropWhile isspace cs = p # rest \<Longrightarrow> punct_class p
     \<Longrightarrow> re_sub_space_punct (c # cs) = p # re_sub_space_punct rest"
  by simp

lemma re_sub_space_punct_skip:
  "\<not> isspace c \<or> dropWhile isspace cs = [] \<or> (\<exists>p rest. dropWhile isspace cs = p # rest \<and> \<not> punct_class p)
     \<Longrightarrow> re_sub_space_punct (c # cs) = c # re_sub_space_punct cs"
  by (auto simp del: dropWhile_eq_Nil_conv)

declare re_sub_space_punct.simps(2) [simp del]

lemma nsp_Cons:
  "no_space_before_punct (a # xs) \<longleftrightarrow>
     (case xs of [] \<Rightarrow> True | b # _ \<Rightarrow> \<not> (isspace a \<and> punct_class b)) \<and> no_space_before_punct xs"
  by (cases xs) auto

lemma nsp_tl: "no_space_before_punct (a # xs) \<Longrightarrow> no_space_before_punct xs"
  by (simp add: nsp_Cons)

lemma nsp_not_space: "\<not> isspace a \<Longrightarrow> no_space_before_punct (a # xs) = no_space_before_punct xs"
  by (cases xs) auto

lemma nsp_dropWhile: "no_space_before_punct xs \<Longrightarrow> no_space_before_punct (dropWhile P xs)"
  by (induction xs) (auto dest: nsp_tl)

lemma nsp_run:
  "no_space_before_punct (c # cs) \<Longrightarrow> isspace c \<Longrightarrow> dropWhile isspace cs = p # rest
     \<Longrightarrow> \<not> punct_class p"
proof (induction cs arbitrary: c)
  case Nil
  then show ?case by simp
next
  case (Cons d ds)
  show ?case
  proof (cases "isspace d")
    case True
    with Cons.prems have "dropWhile isspace ds = p # rest" and "no_space_before_punct (d # ds)"
      by auto
    with Cons.IH [of d] True show ?thesis by blast
  next
    case False
    with Cons.prems show ?thesis by auto
  qed
qed

lemma re_sub_space_punct_fixed:
  "no_space_before_punct x \<Longrightarrow> re_sub_space_punct x = x"
proof (induction x)
  case Nil
  then show ?case by simp
next
  case (Cons c cs)
  then have ih: "re_sub_space_punct cs = cs" by (auto dest: nsp_tl)
  have "\<not> isspace c \<or> dropWhile isspace cs = []
        \<or> (\<exists>p rest. dropWhile isspace cs = p # rest \<and> \<not> punct_class p)"
    using nsp_run [OF Cons.prems] by (cases "dropWhile isspace cs") auto
  from re_sub_space_punct_skip [OF this] ih show ?case by simp
qed

lemma re_sub_space_punct_head:
  assumes "re_sub_space_punct cs = q # ys" and "punct_class q"
  shows "\<exists>rest. dropWhile isspace cs = q # rest"
proof (cases cs)
  case Nil
  with assms show ?thesis by simp
next
  case (Cons c cs')
  show ?thesis
  proof (cases "isspace c \<and> (\<exists>p rest. dropWhile isspace cs' = p # rest \<and> punct_class p)")
    case True
    then obtain p rest where m: "isspace c" "dropWhile isspace cs' = p # rest" "punct_class p"
      by blast
    from re_sub_space_punct_match [OF m] assms(1) Cons m show ?thesis by simp
  next
    case False
    then have "\<not> isspace c \<or> dropWhile isspace cs' = []
        \<or> (\<exists>p rest. dropWhile isspace cs' = p # rest \<and> \<not> punct_class p)"
      by (cases "dropWhile isspace cs'") auto
    from re_sub_space_punct_skip [OF this] assms Cons have "q = c" by simp
    with assms(2) punct_not_space have "\<not> isspace c" by blast
    with Cons \<open>q = c\<close> show ?thesis by simp
  qed
qed

lemma nsp_re_sub_space_punct: "no_space_before_punct (re_sub_space_punct x)"
proof (induction x rule: re_sub_space_punct.induct)
  case 1
  then show ?case by simp
next
  case (2 c cs)
  show ?case
  proof (cases "isspace c \<and> (\<exists>p rest. dropWhile isspace cs = p # rest \<and> punct_class p)")
    case True
    then obtain p rest where m: "isspace c" "dropWhile isspace cs = p # rest" "punct_class p"
      by blast
    from 2(2) [OF m] have "no_space_before_punct (re_sub_space_punct rest)" .
    with punct_not_space [OF m(3)] have "no_space_before_punct (p # re_sub_space_punct rest)"
      by (simp add: nsp_not_space)
    with re_sub_space_punct_match [OF m] show ?thesis by simp
  next
    case False
    then have skip: "\<not> isspace c \<or> dropWhile isspace cs = []
        \<or> (\<exists>p rest. dropWhile isspace cs = p # rest \<and> \<not> punct_class p)"
      by (cases "dropWhile isspace cs") auto
    then have ih: "no_space_before_punct (re_sub_space_punct cs)"
      using 2(1,3,4) by blast
    have "\<not> (isspace c \<and> punct_class q)" if "re_sub_space_punct cs = q # ys" for q ys
    proof
      assume a: "isspace c \<and> punct_class q"
      with re_sub_space_punct_head [OF that] obtain rest where "dropWhile isspace cs = q # rest"
        by blast
      with a False show False by blast
    qed
    with ih have "no_space_before_punct (c # re_sub_space_punct cs)"
      by (auto simp: nsp_Cons split: list.splits)
    with re_sub_space_punct_skip [OF skip] show ?thesis by simp
  qed
qed

subsection \<open>The second pattern: a capital after a terminal mark\<close>

lemma re_sub_terminal_upper_match:
  "terminal_class c \<Longrightarrow> dropWhile isspace cs = u # rest \<Longrightarrow> upper_class u
     \<Longrightarrow> re_sub_terminal_upper (c # cs) = c # CHR '' '' # u # re_sub_terminal_upper rest"
  by simp

lemma re_sub_terminal_upper_skip:
  "\<not> terminal_class c \<or> dropWhile isspace cs = []
     \<or> (\<exists>u rest. dropWhile isspace cs = u # rest \<and> \<not> upper_class u)
     \<Longrightarrow> re_sub_terminal_upper (c # cs) = c # re_sub_terminal_upper cs"
  by (auto simp del: dropWhile_eq_Nil_conv)

declare re_sub_terminal_upper.simps(2) [simp del]

lemma match_or_skip:
  "(terminal_class c \<and> (\<exists>u rest. dropWhile isspace cs = u # rest \<and> upper_class u))
   \<or> (\<not> terminal_class c \<or> dropWhile isspace cs = []
       \<or> (\<exists>u rest. dropWhile isspace cs = u # rest \<and> \<not> upper_class u))"
  by (cases "dropWhile isspace cs") auto

lemma re_sub_terminal_upper_Cons: "\<exists>ys. re_sub_terminal_upper (c # cs) = c # ys"
  using match_or_skip [of c cs] re_sub_terminal_upper_match re_sub_terminal_upper_skip
  by metis

lemma dropWhile_re_sub_terminal_upper:
  "dropWhile isspace (re_sub_terminal_upper cs) = re_sub_terminal_upper (dropWhile isspace cs)"
proof (induction cs)
  case Nil
  then show ?case by simp
next
  case (Cons c cs)
  show ?case
  proof (cases "isspace c")
    case True
    then have "\<not> terminal_class c" using terminal_not_space by blast
    then have "re_sub_terminal_upper (c # cs) = c # re_sub_terminal_upper cs"
      by (simp add: re_sub_terminal_upper_skip)
    with True Cons.IH show ?thesis by simp
  next
    case False
    obtain ys where "re_sub_terminal_upper (c # cs) = c # ys"
      using re_sub_terminal_upper_Cons by blast
    with False show ?thesis by simp
  qed
qed

lemma re_sub_terminal_upper_idem:
  "re_sub_terminal_upper (re_sub_terminal_upper x) = re_sub_terminal_upper x"
proof (induction x rule: re_sub_terminal_upper.induct)
  case 1
  then show ?case by simp
next
  case (2 c cs)
  show ?case
  proof (cases "terminal_class c \<and> (\<exists>u rest. dropWhile isspace cs = u # rest \<and> upper_class u)")
    case True
    then obtain u rest where m: "terminal_class c" "dropWhile isspace cs = u # rest" "upper_class u"
      by blast
    have ih: "re_sub_terminal_upper (re_sub_terminal_upper rest) = re_sub_terminal_upper rest"
      by (rule 2(2) [OF m])
    have "dropWhile isspace (CHR '' '' # u # re_sub_terminal_upper rest)
            = u # re_sub_terminal_upper rest"
      using upper_not_space [OF m(3)] by (simp add: isspace_def)
    from re_sub_terminal_upper_match [OF m(1) this m(3)] ih
    show ?thesis by (simp add: re_sub_terminal_upper_match [OF m])
  next
    case False
    with match_or_skip [of c cs]
    have skip: "\<not> terminal_class c \<or> dropWhile isspace cs = []
        \<or> (\<exists>u rest. dropWhile isspace cs = u # rest \<and> \<not> upper_class u)"
      by blast
    then have ih: "re_sub_terminal_upper (re_sub_terminal_upper cs) = re_sub_terminal_upper cs"
      using 2(1,3,4) by blast
    have "\<not> terminal_class c \<or> dropWhile isspace (re_sub_terminal_upper cs) = []
        \<or> (\<exists>u rest. dropWhile isspace (re_sub_terminal_upper cs) = u # rest \<and> \<not> upper_class u)"
    proof (cases "dropWhile isspace cs")
      case Nil
      then show ?thesis by (simp add: dropWhile_re_sub_terminal_upper del: dropWhile_eq_Nil_conv)
    next
      case (Cons e r)
      obtain ys where "re_sub_terminal_upper (e # r) = e # ys"
        using re_sub_terminal_upper_Cons by blast
      with Cons have "dropWhile isspace (re_sub_terminal_upper cs) = e # ys"
        by (simp add: dropWhile_re_sub_terminal_upper)
      with skip Cons show ?thesis by auto
    qed
    from re_sub_terminal_upper_skip [OF this] re_sub_terminal_upper_skip [OF skip] ih
    show ?thesis by simp
  qed
qed

lemma nsp_re_sub_terminal_upper:
  "no_space_before_punct x \<Longrightarrow> no_space_before_punct (re_sub_terminal_upper x)"
proof (induction x rule: re_sub_terminal_upper.induct)
  case 1
  then show ?case by simp
next
  case (2 c cs)
  show ?case
  proof (cases "terminal_class c \<and> (\<exists>u rest. dropWhile isspace cs = u # rest \<and> upper_class u)")
    case True
    then obtain u rest where m: "terminal_class c" "dropWhile isspace cs = u # rest" "upper_class u"
      by blast
    from "2.prems" have "no_space_before_punct (dropWhile isspace cs)"
      by (auto dest: nsp_tl intro: nsp_dropWhile)
    with m(2) have "no_space_before_punct rest" by (auto dest: nsp_tl)
    from 2(2) [OF m this] have "no_space_before_punct (re_sub_terminal_upper rest)" .
    then have "no_space_before_punct (c # CHR '' '' # u # re_sub_terminal_upper rest)"
      using upper_not_punct [OF m(3)] upper_not_space [OF m(3)] terminal_not_space [OF m(1)]
      by (simp add: nsp_not_space)
    with re_sub_terminal_upper_match [OF m] show ?thesis by simp
  next
    case False
    with match_or_skip [of c cs]
    have skip: "\<not> terminal_class c \<or> dropWhile isspace cs = []
        \<or> (\<exists>u rest. dropWhile isspace cs = u # rest \<and> \<not> upper_class u)"
      by blast
    from "2.prems" have "no_space_before_punct cs" by (rule nsp_tl)
    with skip have ih: "no_space_before_punct (re_sub_terminal_upper cs)"
      using 2(1,3,4) by blast
    have "no_space_before_punct (c # re_sub_terminal_upper cs)"
    proof (cases cs)
      case Nil
      then show ?thesis by simp
    next
      case (Cons b bs)
      obtain ys where ys: "re_sub_terminal_upper (b # bs) = b # ys"
        using re_sub_terminal_upper_Cons by blast
      from "2.prems" Cons have "\<not> (isspace c \<and> punct_class b)" by simp
      with ih Cons ys show ?thesis by simp
    qed
    with re_sub_terminal_upper_skip [OF skip] show ?thesis by simp
  qed
qed

subsection \<open>Capitalising the first character\<close>

lemma capitalize_first_Cons: "capitalize_first (c # cs) = upper_char c # cs"
  by (cases cs) (simp_all add: capitalize_first_def)

lemma capitalize_first_Nil: "capitalize_first [] = []"
  by (simp add: capitalize_first_def)

lemma capitalize_first_idem: "capitalize_first (capitalize_first x) = capitalize_first x"
  by (cases x) (simp_all add: capitalize_first_Cons capitalize_first_Nil upper_char_idem)

lemma nsp_capitalize_first:
  "no_space_before_punct x \<Longrightarrow> no_space_before_punct (capitalize_first x)"
  by (cases x)
     (auto simp: capitalize_first_Cons capitalize_first_Nil nsp_Cons upper_char_space
           split: list.splits)

lemma re_sub_terminal_upper_capitalize_first:
  assumes "re_sub_terminal_upper x = x"
  shows "re_sub_terminal_upper (capitalize_first x) = capitalize_first x"
proof (cases x)
  case Nil
  then show ?thesis by (simp add: capitalize_first_Nil)
next
  case (Cons c cs)
  show ?thesis
  proof (cases "terminal_class c")
    case True
    with assms Cons show ?thesis by (simp add: capitalize_first_Cons upper_char_terminal_fixed)
  next
    case False
    then have "re_sub_terminal_upper (c # cs) = c # re_sub_terminal_upper cs"
      by (simp add: re_sub_terminal_upper_skip)
    with assms Cons have "re_sub_terminal_upper cs = cs" by simp
    moreover from False have "\<not> terminal_class (upper_char c)" by (simp add: upper_char_terminal)
    ultimately show ?thesis using Cons
      by (simp add: capitalize_first_Cons re_sub_terminal_upper_skip)
  qed
qed

subsection \<open>The last character\<close>

lemma last_dropWhile: "dropWhile P xs \<noteq> [] \<Longrightarrow> last (dropWhile P xs) = last xs"
  by (induction xs) (auto split: if_splits)

lemma last_re_sub_space_punct:
  "x \<noteq> [] \<Longrightarrow> \<not> isspace (last x)
     \<Longrightarrow> re_sub_space_punct x \<noteq> [] \<and> last (re_sub_space_punct x) = last x"
proof (induction x rule: re_sub_space_punct.induct)
  case 1
  then show ?case by simp
next
  case (2 c cs)
  show ?case
  proof (cases "isspace c \<and> (\<exists>p rest. dropWhile isspace cs = p # rest \<and> punct_class p)")
    case True
    then obtain p rest where m: "isspace c" "dropWhile isspace cs = p # rest" "punct_class p"
      by blast
    from m(2) have "cs \<noteq> []" by auto
    with last_dropWhile [of isspace cs] m(2) have l: "last (c # cs) = last (p # rest)" by simp
    show ?thesis
    proof (cases "rest = []")
      case True
      with l re_sub_space_punct_match [OF m] show ?thesis by simp
    next
      case False
      with l "2.prems" have "\<not> isspace (last rest)" by simp
      from 2(2) [OF m False this] l False re_sub_space_punct_match [OF m]
      show ?thesis by simp
    qed
  next
    case False
    then have skip: "\<not> isspace c \<or> dropWhile isspace cs = []
        \<or> (\<exists>p rest. dropWhile isspace cs = p # rest \<and> \<not> punct_class p)"
      by (cases "dropWhile isspace cs") auto
    show ?thesis
    proof (cases "cs = []")
      case True
      with re_sub_space_punct_skip [OF skip] show ?thesis by simp
    next
      case nonempty: False
      with "2.prems" have "\<not> isspace (last cs)" by simp
      with skip nonempty have "re_sub_space_punct cs \<noteq> [] \<and> last (re_sub_space_punct cs) = last cs"
        using 2(1,3,4) by blast
      with re_sub_space_punct_skip [OF skip] nonempty show ?thesis by simp
    qed
  qed
qed

lemma last_re_sub_terminal_upper:
  "x \<noteq> [] \<Longrightarrow> re_sub_terminal_upper x \<noteq> [] \<and> last (re_sub_terminal_upper x) = last x"
proof (induction x rule: re_sub_terminal_upper.induct)
  case 1
  then show ?case by simp
next
  case (2 c cs)
  show ?case
  proof (cases "terminal_class c \<and> (\<exists>u rest. dropWhile isspace cs = u # rest \<and> upper_class u)")
    case True
    then obtain u rest where m: "terminal_class c" "dropWhile isspace cs = u # rest" "upper_class u"
      by blast
    from m(2) have "cs \<noteq> []" by auto
    with last_dropWhile [of isspace cs] m(2) have l: "last (c # cs) = last (u # rest)" by simp
    show ?thesis
    proof (cases "rest = []")
      case True
      with l re_sub_terminal_upper_match [OF m] show ?thesis by simp
    next
      case False
      from 2(2) [OF m False] l False re_sub_terminal_upper_match [OF m]
      show ?thesis by simp
    qed
  next
    case False
    with match_or_skip [of c cs]
    have skip: "\<not> terminal_class c \<or> dropWhile isspace cs = []
        \<or> (\<exists>u rest. dropWhile isspace cs = u # rest \<and> \<not> upper_class u)"
      by blast
    show ?thesis
    proof (cases "cs = []")
      case True
      with re_sub_terminal_upper_skip [OF skip] show ?thesis by simp
    next
      case nonempty: False
      with skip have "re_sub_terminal_upper cs \<noteq> [] \<and> last (re_sub_terminal_upper cs) = last cs"
        using 2(1,3,4) by blast
      with re_sub_terminal_upper_skip [OF skip] nonempty show ?thesis by simp
    qed
  qed
qed

lemma last_capitalize_first:
  "x \<noteq> [] \<Longrightarrow> terminal_class (last x)
     \<Longrightarrow> capitalize_first x \<noteq> [] \<and> last (capitalize_first x) = last x"
  by (cases x) (auto simp: capitalize_first_Cons upper_char_terminal_fixed)

lemma ends_sentence_ensure_ending: "x \<noteq> [] \<Longrightarrow> ends_sentence (ensure_ending x)"
  by (auto simp: ensure_ending_def ends_sentence_iff terminal_class_def)

lemma ensure_ending_fixed: "x = [] \<or> ends_sentence x \<Longrightarrow> ensure_ending x = x"
  by (auto simp: ensure_ending_def)

lemma ends_sentence_post_process_text:
  assumes "x \<noteq> []"
  shows "ends_sentence (post_process_text x)"
proof -
  let ?a = "ensure_ending x"
  let ?b = "re_sub_space_punct ?a"
  let ?c = "re_sub_terminal_upper ?b"
  have a: "?a \<noteq> []" "terminal_class (last ?a)"
    using ends_sentence_ensure_ending [OF assms] by (simp_all add: ends_sentence_iff)
  then have "\<not> isspace (last ?a)" using terminal_not_space by blast
  from last_re_sub_space_punct [OF a(1) this] a(2)
  have b: "?b \<noteq> []" "terminal_class (last ?b)" by simp_all
  from last_re_sub_terminal_upper [OF b(1)] b(2)
  have c: "?c \<noteq> []" "terminal_class (last ?c)" by simp_all
  from last_capitalize_first [OF c] c(2)
  show ?thesis by (simp add: post_process_text_def ends_sentence_iff)
qed

lemma post_process_text_Nil: "post_process_text [] = []"
  by (simp add: post_process_text_def ensure_ending_def capitalize_first_Nil)

section \<open>Reachable states and the token list\<close>

lemma load_abc: "load_training_data generator_init ''A b. C'' = Inr abc_model"
  by code_simp

lemma reachable_tokens_nonempty: "reachable s \<Longrightarrow> tokens_nonempty s"
proof (induction rule: reachable.induct)
  case init
  then show ?case by (simp add: tokens_nonempty_def generator_init_def)
next
  case (load s t s')
  then show ?case using load_training_data_tokens_nonempty by blast
qed

lemma reachable_successors_nonempty: "reachable s \<Longrightarrow> successors_nonempty s"
proof (induction rule: reachable.induct)
  case init
  then show ?case by (simp add: successors_nonempty_def generator_init_def)
next
  case (load s t s')
  then show ?case using load_training_data_successors_nonempty by blast
qed

lemma generate_tokens_Inr:
  "\<exists>w ys ex. generate_tokens s rnd max_length min_length = Inr (w # ys, ex) \<and>
      (w \<in> set (sentence_starters s) \<or> w \<in> set (map fst (bigrams s)) \<or> w = ''The'')"
proof -
  obtain w where w: "choose_starting_word s (rnd 0) = Inr w"
    "w \<in> set (sentence_starters s) \<or> w \<in> set (map fst (bigrams s)) \<or> w = ''The''"
    using choose_starting_word_Inr by blast
  obtain out ex where
    out: "walk (bigrams s) min_length rnd (nat (max_length - 1)) 0 w [w] = Inr (out, ex)"
    using walk_Inr by blast
  from walk_prefix [OF out] obtain ys where "out = w # ys" by auto
  with w out show ?thesis by (auto simp: generate_tokens_def)
qed

lemma generate_tokens_walk:
  assumes "generate_tokens s rnd max_length min_length = Inr (synopsis, ex)"
  obtains w where
    "walk (bigrams s) min_length rnd (nat (max_length - 1)) 0 w [w] = Inr (synopsis, ex)"
  using assms by (auto simp: generate_tokens_def split: sum.splits)

lemma join_nonempty: "w \<noteq> [] \<Longrightarrow> join (w # ws) \<noteq> []"
  by (cases ws) auto

lemma generate_synopsis_Inr: "\<exists>out. generate_synopsis s rnd max_length min_length = Inr out"
proof -
  obtain w ys ex where "generate_tokens s rnd max_length min_length = Inr (w # ys, ex)"
    using generate_tokens_Inr by blast
  then show ?thesis by (simp add: generate_synopsis_def)
qed

subsection \<open>Starters collected inside the loop\<close>

lemma train_step_starters_mono:
  "train_step words i t = Inr t' \<Longrightarrow> set (sentence_starters t) \<subseteq> set (sentence_starters t')"
  using train_step_cases(2) [of words i t t'] by auto

lemma train_loop_starters_mono:
  assumes "train_loop words idxs s = Inr s'"
  shows "set (sentence_starters s) \<subseteq> set (sentence_starters s')"
  by (rule train_loop_invariant
        [where P = "\<lambda>t. set (sentence_starters s) \<subseteq> set (sentence_starters t)", OF assms])
     (use train_step_starters_mono in blast)+

lemma train_step_collects:
  assumes "train_step words i s = Inr s'" and "0 < i" and "ends_sentence (words ! (i - 1))"
    and "first_isupper (words ! i) = Inr True"
  shows "words ! i \<in> set (sentence_starters s')"
  using assms by (auto simp: train_step_def Let_def)

lemma train_loop_collects:
  assumes "train_loop words idxs s = Inr s'" and "i \<in> set idxs" and "0 < i"
    and "ends_sentence (words ! (i - 1))" and "first_isupper (words ! i) = Inr True"
  shows "words ! i \<in> set (sentence_starters s')"
  using assms(1,2)
proof (induction idxs arbitrary: s)
  case Nil
  then show ?case by simp
next
  case (Cons j idxs)
  from Cons.prems(1) obtain s1 where s1: "train_step words j s = Inr s1"
    and rest: "train_loop words idxs s1 = Inr s'"
    by (auto split: sum.splits)
  show ?case
  proof (cases "j = i")
    case True
    with train_step_collects [OF _ assms(3,4,5)] s1
    have "words ! i \<in> set (sentence_starters s1)" by blast
    with train_loop_starters_mono [OF rest] show ?thesis by blast
  next
    case False
    with Cons.prems(2) have "i \<in> set idxs" by simp
    from Cons.IH [OF rest this] show ?thesis .
  qed
qed

lemma interior_starter_collected:
  assumes "load_training_data s text = Inr s'"
    and "0 < i" and "i < length (tokenize_text text) - 1"
    and "ends_sentence (tokenize_text text ! (i - 1))"
    and "first_isupper (tokenize_text text ! i) = Inr True"
  shows "tokenize_text text ! i \<in> set (sentence_starters s')"
proof -
  let ?w = "tokenize_text text"
  from assms(1) obtain s1 where s1: "train_loop ?w [0..<length ?w - 1] s = Inr s1"
    by (auto simp: load_training_data_def Let_def split: sum.splits)
  from assms(3) have "i \<in> set [0..<length ?w - 1]" by simp
  from train_loop_collects [OF s1 this assms(2,4,5)]
  have "?w ! i \<in> set (sentence_starters s1)" .
  moreover from assms(1) s1
  have "s' = s1 \<or> s' = s1\<lparr>sentence_starters := sentence_starters s1 @ [?w ! 0]\<rparr>"
    by (auto simp: load_training_data_def Let_def split: sum.splits if_splits)
  ultimately show ?thesis by auto
qed

section \<open>The claims\<close>

subsection \<open>C1: training twice\<close>

text \<open>
  C1 as stated fails. Training a new generator on \<open>The cat\<close> and then on \<open>A dog\<close>
  leaves the key \<open>The\<close> and the starter \<open>The\<close> of the first text in the model, which a
  new generator trained on \<open>A dog\<close> alone does not have.
\<close>

theorem retraining_replaces_counterexample:
  "retrain ''The cat'' ''A dog'' =
     Inr \<lparr>bigrams = [(''The'', [''cat'']), (''A'', [''dog''])],
          sentence_starters = [''The'', ''A'']\<rparr>
   \<and> load_training_data generator_init ''A dog'' =
     Inr \<lparr>bigrams = [(''A'', [''dog''])], sentence_starters = [''A'']\<rparr>
   \<and> retrain ''The cat'' ''A dog'' \<noteq> load_training_data generator_init ''A dog''"
  by code_simp

text \<open>
  C1, amended: for every pair of training texts \<open>T1\<close> and \<open>T2\<close>, calling
  \<open>load_training_data(T1)\<close> and then \<open>load_training_data(T2)\<close> on the same generator
  succeeds and extends the model: the successor list of every key is the list learnt from
  \<open>T1\<close> followed by the list learnt from \<open>T2\<close> by a new generator, and the starter pool
  is the pool of \<open>T1\<close> followed by the pool of \<open>T2\<close>. The result is the model of a new
  generator trained on \<open>T2\<close> when \<open>T1\<close> has no token.
\<close>

theorem retraining_accumulates:
  "\<exists>s1 s2 s12.
     load_training_data generator_init T1 = Inr s1 \<and>
     load_training_data generator_init T2 = Inr s2 \<and>
     retrain T1 T2 = Inr s12 \<and>
     (\<forall>k. dict_get (bigrams s12) k = dict_get (bigrams s1) k @ dict_get (bigrams s2) k) \<and>
     sentence_starters s12 = sentence_starters s1 @ sentence_starters s2 \<and>
     (tokenize_text T1 = [] \<longrightarrow> s12 = s2)"
proof -
  obtain s1 where s1: "load_training_data generator_init T1 = Inr s1"
    using load_training_data_Inr by blast
  obtain s2 where s2: "load_training_data generator_init T2 = Inr s2"
    using load_training_data_Inr by blast
  obtain s12 where s12: "load_training_data s1 T2 = Inr s12"
    using load_training_data_Inr by blast
  have "(\<forall>k. dict_get (bigrams s12) k = dict_get (bigrams s1) k @ dict_get (bigrams s2) k)
        \<and> sentence_starters s12 = sentence_starters s1 @ sentence_starters s2"
    by (rule load_training_data_rel [OF s12 s2])
       (simp_all add: generator_init_def dict_get_def)
  moreover have "tokenize_text T1 = [] \<longrightarrow> s12 = s2"
    using s1 s2 s12 by (auto simp: load_training_data_blank)
  moreover have "retrain T1 T2 = Inr s12"
    using s1 s12 by (simp add: retrain_def)
  ultimately show ?thesis using s1 s2 by blast
qed

text \<open>The amended C1 at a blank first text and the second text \<open>A dog\<close>.\<close>

theorem retraining_accumulates_witness:
  "tokenize_text ''  '' = []
   \<and> retrain ''  '' ''A dog'' = load_training_data generator_init ''A dog''"
proof -
  have h: "tokenize_text ''  '' = []" by code_simp
  from retraining_accumulates [of "''  ''" "''A dog''"] h show ?thesis by auto
qed

subsection \<open>C2: the stopping rule\<close>

text \<open>
  C2 as stated fails. On the model learnt from \<open>A b. C\<close>, with \<open>max_length = 10\<close> and
  \<open>min_length = 2\<close>, the walk appends \<open>b.\<close> to \<open>[A]\<close>: the list then has \<open>2\<close> tokens,
  which is \<open>min_length\<close>, and \<open>b.\<close> ends a sentence, yet the walk goes on and appends
  \<open>C\<close>.
\<close>

theorem stop_at_min_length_counterexample:
  "load_training_data generator_init ''A b. C'' = Inr abc_model
   \<and> generate_tokens abc_model always_first 10 2 = Inr ([''A'', ''b.'', ''C''], NoTransitions)
   \<and> \<not> natural_stop_respected 2 [''A'', ''b.'', ''C'']"
  by code_simp

text \<open>
  C2, amended: during a walk in \<open>generate_synopsis\<close>, for every model and every
  \<open>min_length\<close>, as soon as the output token list (the start token included) has length
  at least \<open>min_length + 1\<close>, that is, at least \<open>min_length\<close> tokens stand before the
  token just appended, and that token ends in one of \<open>.\<close>, \<open>!\<close>, \<open>?\<close>, the walk stops:
  no further token is appended.
\<close>

theorem natural_ending_stops_walk:
  assumes "generate_tokens s rnd max_length min_length = Inr (synopsis, ex)"
  shows "natural_stop_respected (min_length + 1) synopsis"
proof -
  from assms obtain w where
    w: "walk (bigrams s) min_length rnd (nat (max_length - 1)) 0 w [w] = Inr (synopsis, ex)"
    by (rule generate_tokens_walk)
  have "Suc j = length synopsis"
    if "1 \<le> j" "j < length synopsis" "min_length \<le> int j" "ends_sentence (synopsis ! j)" for j
    by (rule walk_stops [OF w _ _ that]) simp_all
  then show ?thesis
    by (auto simp: natural_stop_respected_def list_all_iff)
qed

text \<open>The amended C2 on the model learnt from \<open>A b. C\<close> with \<open>min_length = 1\<close>.\<close>

theorem natural_ending_stops_walk_witness:
  "generate_tokens abc_model always_first 10 1 = Inr ([''A'', ''b.''], NaturalEnding)
   \<and> natural_stop_respected (1 + 1) [''A'', ''b.'']"
proof -
  have h: "generate_tokens abc_model always_first 10 1 = Inr ([''A'', ''b.''], NaturalEnding)"
    by code_simp
  from natural_ending_stops_walk [OF h] h show ?thesis by simp
qed

subsection \<open>C3: starters at the last position\<close>

text \<open>
  C3 says that every token after a sentence end that starts with a capital joins the
  starter pool, the last token of the text included. In \<open>Go on. Stop\<close> the last token
  \<open>Stop\<close> follows \<open>on.\<close> and starts with a capital, and training a new generator on
  this text gives the starter pool \<open>[Go]\<close>, without \<open>Stop\<close>: the loop over
  \<open>range(len(words) - 1)\<close> never takes the last token as \<open>current_word\<close>.
\<close>

theorem last_token_not_collected:
  "tokenize_text ''Go on. Stop'' = [''Go'', ''on.'', ''Stop'']
   \<and> ends_sentence ''on.'' \<and> first_isupper ''Stop'' = Inr True
   \<and> load_training_data generator_init ''Go on. Stop'' =
       Inr \<lparr>bigrams = [(''Go'', [''on.'']), (''on.'', [''Stop''])],
            sentence_starters = [''Go'']\<rparr>"
  by code_simp

subsection \<open>C4: bounded length\<close>

text \<open>
  C4: for every model, every \<open>max_length \<ge> 1\<close> and every \<open>min_length\<close>, the walk of
  \<open>generate_synopsis\<close> returns, and the token list it produces (the start token
  included, before joining and post-processing) has at most \<open>max_length\<close> tokens.
\<close>

theorem walk_length_bounded:
  "1 \<le> max_length \<Longrightarrow>
     \<exists>synopsis ex. generate_tokens s rnd max_length min_length = Inr (synopsis, ex)
        \<and> int (length synopsis) \<le> max_length"
proof -
  assume m: "1 \<le> max_length"
  obtain w ys ex where g: "generate_tokens s rnd max_length min_length = Inr (w # ys, ex)"
    using generate_tokens_Inr by blast
  from g obtain w' where
    "walk (bigrams s) min_length rnd (nat (max_length - 1)) 0 w' [w'] = Inr (w # ys, ex)"
    by (rule generate_tokens_walk)
  from walk_length [OF this] m have "int (length (w # ys)) \<le> max_length" by simp
  with g show ?thesis by blast
qed

text \<open>C4 on the model learnt from \<open>A b. C\<close> with \<open>max_length = 10\<close>.\<close>

theorem walk_length_bounded_witness:
  "(1::int) \<le> 10 \<and>
   (\<exists>synopsis ex. generate_tokens abc_model always_first 10 2 = Inr (synopsis, ex)
       \<and> int (length synopsis) \<le> 10)"
  using walk_length_bounded [of 10 abc_model always_first 2] by simp

subsection \<open>C5: the empty model\<close>

text \<open>
  C5: for every \<open>max_length\<close> and \<open>min_length\<close>, if the transition table is empty then
  \<open>generate_synopsis\<close> returns the fixed string \<open>No training data available.\<close> and
  raises nothing; a new generator trained on the empty string has an empty table and
  returns that string.
\<close>

theorem empty_model_fallback:
  "(bigrams s = [] \<longrightarrow>
      generate_synopsis s rnd max_length min_length = Inr ''No training data available.'')
   \<and> (\<exists>s'. load_training_data generator_init [] = Inr s' \<and> bigrams s' = []
         \<and> generate_synopsis s' rnd max_length min_length = Inr ''No training data available.'')"
proof -
  have "tokenize_text [] = []" by (simp add: tokenize_text_def strip_def)
  then have "load_training_data generator_init [] = Inr generator_init"
    by (rule load_training_data_blank)
  then show ?thesis by (simp add: generate_synopsis_def generator_init_def)
qed

text \<open>C5 on a new generator with the default lengths \<open>100\<close> and \<open>20\<close>.\<close>

theorem empty_model_fallback_witness:
  "bigrams generator_init = []
   \<and> generate_synopsis generator_init always_first 100 20 = Inr ''No training data available.''"
  using empty_model_fallback [of generator_init always_first 100 20]
  by (simp add: generator_init_def)

subsection \<open>C6: no key without a successor\<close>

text \<open>
  C6: each of the operations \<open>load_training_data\<close>, \<open>generate_synopsis\<close>, \<open>get_stats\<close>
  and \<open>print_bigram_sample\<close>, from a state in which every key of the transition table has
  a non-empty successor list, returns without an error and leaves a state in which every
  key has a non-empty successor list.
\<close>

theorem operations_keep_successors_nonempty:
  "successors_nonempty s \<Longrightarrow>
     \<exists>out s'. perform rnd op s = Inr (out, s') \<and> successors_nonempty s'"
proof -
  assume inv: "successors_nonempty s"
  show ?thesis
  proof (cases op)
    case (LoadTrainingData t)
    obtain s' where s': "load_training_data s t = Inr s'"
      using load_training_data_Inr by blast
    from load_training_data_successors_nonempty [OF inv s'] s' LoadTrainingData
    show ?thesis by (simp add: perform_def)
  next
    case (GenerateSynopsis mx mn)
    obtain out where "generate_synopsis s rnd mx mn = Inr out"
      using generate_synopsis_Inr by blast
    with inv GenerateSynopsis show ?thesis by (simp add: perform_def)
  next
    case GetStats
    with inv show ?thesis by (simp add: perform_def)
  next
    case (PrintBigramSample n)
    with inv show ?thesis by (simp add: perform_def)
  qed
qed

text \<open>C6 for training the model learnt from \<open>A b. C\<close> on the further text \<open>C d\<close>.\<close>

theorem operations_keep_successors_nonempty_witness:
  "successors_nonempty abc_model
   \<and> (\<exists>out s'. perform always_first (LoadTrainingData ''C d'') abc_model = Inr (out, s')
         \<and> successors_nonempty s')"
proof -
  have h: "successors_nonempty abc_model" by code_simp
  from operations_keep_successors_nonempty [OF h] h show ?thesis by blast
qed

subsection \<open>C7: no natural ending before the minimum\<close>

text \<open>
  C7: for every model, \<open>max_length\<close> and \<open>min_length\<close>, a walk that leaves by the natural
  ending has produced at least \<open>min_length\<close> tokens; and a walk that ends with fewer than
  \<open>min_length\<close> tokens, and fewer than \<open>max_length\<close>, has left by the dead end: its last
  token has no recorded successor.
\<close>

theorem natural_ending_not_before_min_length:
  assumes "generate_tokens s rnd max_length min_length = Inr (synopsis, ex)"
  shows "(ex = NaturalEnding \<longrightarrow> min_length \<le> int (length synopsis)) \<and>
         (int (length synopsis) < min_length \<and> int (length synopsis) < max_length
            \<longrightarrow> ex = NoTransitions \<and> dict_get (bigrams s) (last synopsis) = [])"
proof -
  from assms obtain w where
    w: "walk (bigrams s) min_length rnd (nat (max_length - 1)) 0 w [w] = Inr (synopsis, ex)"
    by (rule generate_tokens_walk)
  from walk_exit [OF w]
  have e: "ex = NaturalEnding \<longrightarrow> min_length < int (length synopsis)"
    "ex = RangeExhausted \<longrightarrow> length synopsis = length [w] + nat (max_length - 1)"
    "ex = NoTransitions \<longrightarrow> dict_get (bigrams s) (last synopsis) = []"
    by simp_all
  show ?thesis
  proof (cases ex)
    case RangeExhausted
    with e(2) show ?thesis by auto
  next
    case NoTransitions
    with e(3) show ?thesis by simp
  next
    case NaturalEnding
    with e(1) show ?thesis by simp
  qed
qed

text \<open>
  C7 on the model learnt from \<open>A b. C\<close> with \<open>min_length = 5\<close>: the walk passes \<open>b.\<close>
  and ends after three tokens at \<open>C\<close>, which has no successor.
\<close>

theorem natural_ending_not_before_min_length_witness:
  "generate_tokens abc_model always_first 10 5 = Inr ([''A'', ''b.'', ''C''], NoTransitions)
   \<and> dict_get (bigrams abc_model) ''C'' = []"
proof -
  have h: "generate_tokens abc_model always_first 10 5
             = Inr ([''A'', ''b.'', ''C''], NoTransitions)"
    by code_simp
  from natural_ending_not_before_min_length [OF h] h show ?thesis by simp
qed

subsection \<open>C8: the post-processor is idempotent\<close>

text \<open>
  C8: for every string, and so for the join of every token list, applying
  \<open>_post_process_text\<close> to its own output returns that output unchanged.
\<close>

theorem post_process_text_idempotent:
  "post_process_text (post_process_text text) = post_process_text text"
proof -
  let ?z = "re_sub_terminal_upper (re_sub_space_punct (ensure_ending text))"
  let ?y = "post_process_text text"
  have y: "?y = capitalize_first ?z" by (simp add: post_process_text_def)
  have "?y = [] \<or> ends_sentence ?y"
    using ends_sentence_post_process_text [of "text"] post_process_text_Nil
    by (cases "text = []") auto
  then have 1: "ensure_ending ?y = ?y" by (rule ensure_ending_fixed)
  have "no_space_before_punct ?y"
    unfolding y by (intro nsp_capitalize_first nsp_re_sub_terminal_upper nsp_re_sub_space_punct)
  then have 2: "re_sub_space_punct ?y = ?y" by (rule re_sub_space_punct_fixed)
  have 3: "re_sub_terminal_upper ?y = ?y"
    unfolding y by (rule re_sub_terminal_upper_capitalize_first) (rule re_sub_terminal_upper_idem)
  have 4: "capitalize_first ?y = ?y"
    unfolding y by (rule capitalize_first_idem)
  have "post_process_text ?y
          = capitalize_first (re_sub_terminal_upper (re_sub_space_punct (ensure_ending ?y)))"
    by (simp add: post_process_text_def)
  also have "\<dots> = ?y" by (simp only: 1 2 3 4)
  finally show ?thesis .
qed

subsection \<open>C9: the scenario\<close>

text \<open>
  C9: training a new generator on \<open>The cat sat. The dog ran.\<close> gives a transition table
  whose entry for the key \<open>The\<close> is the list \<open>[cat, dog]\<close>, in this order, and the
  starter pool \<open>[The, The]\<close>: \<open>The\<close> twice, once for the capital after \<open>sat.\<close> and once
  for the first word.
\<close>

theorem scenario_the_cat_sat:
  "\<exists>s. load_training_data generator_init ''The cat sat. The dog ran.'' = Inr s
      \<and> dict_get (bigrams s) ''The'' = [''cat'', ''dog'']
      \<and> sentence_starters s = [''The'', ''The'']
      \<and> count_list (sentence_starters s) ''The'' = 2"
proof -
  have "load_training_data generator_init ''The cat sat. The dog ran.'' =
     Inr \<lparr>bigrams = [(''The'', [''cat'', ''dog'']), (''cat'', [''sat.'']), (''sat.'', [''The'']),
                     (''dog'', [''ran.''])],
          sentence_starters = [''The'', ''The'']\<rparr>"
    by code_simp
  then show ?thesis by (simp add: dict_get_def)
qed

subsection \<open>C10: the synopsis ends a sentence\<close>

text \<open>
  C10: in every state a generator can reach (a new one, trained any number of times,
  with an empty table or not) and for all lengths, \<open>generate_synopsis\<close> returns a
  non-empty string whose last character is one of \<open>.\<close>, \<open>!\<close>, \<open>?\<close>; the string returned
  on an empty table is one of them.
\<close>

theorem synopsis_ends_sentence:
  "reachable s \<Longrightarrow>
     \<exists>out. generate_synopsis s rnd max_length min_length = Inr out
        \<and> out \<noteq> [] \<and> last out \<in> set ''.!?''"
proof -
  assume r: "reachable s"
  show ?thesis
  proof (cases "bigrams s = []")
    case True
    then show ?thesis by (simp add: generate_synopsis_def)
  next
    case False
    obtain w ys ex where g: "generate_tokens s rnd max_length min_length = Inr (w # ys, ex)"
      and w: "w \<in> set (sentence_starters s) \<or> w \<in> set (map fst (bigrams s)) \<or> w = ''The''"
      using generate_tokens_Inr by blast
    from reachable_tokens_nonempty [OF r] w have "w \<noteq> []"
      by (auto simp: tokens_nonempty_def)
    then have "join (w # ys) \<noteq> []" by (rule join_nonempty)
    then have "ends_sentence (post_process_text (join (w # ys)))"
      by (rule ends_sentence_post_process_text)
    then have "post_process_text (join (w # ys)) \<noteq> []"
      and "last (post_process_text (join (w # ys))) \<in> set ''.!?''"
      by (simp_all add: ends_sentence_iff terminal_class_def)
    with g False show ?thesis by (simp add: generate_synopsis_def)
  qed
qed

text \<open>C10 on the model learnt from \<open>A b. C\<close>.\<close>

theorem synopsis_ends_sentence_witness:
  "reachable abc_model
   \<and> (\<exists>out. generate_synopsis abc_model always_first 10 2 = Inr out
         \<and> out \<noteq> [] \<and> last out \<in> set ''.!?'')"
proof -
  have r: "reachable abc_model"
    using reachable.init load_abc by (rule reachable.load)
  from synopsis_ends_sentence [OF r] r show ?thesis by blast
qed

end
